theory Spec2Isabelle
  imports Complex_Main "HOL-Library.Log_Nat"
begin

section \<open>Numbers and strings of the dashboard\<close>

text \<open>
  The dashboard (\<^verbatim>\<open>frontend/app/dashboard/page.tsx\<close>) computes with JavaScript numbers.
  Integer-valued numbers are modelled as \<^typ>\<open>int\<close>, other finite numbers as the rationals
  (\<^typ>\<open>rat\<close>) they denote; NaN and the infinities are outside the model.
  \<^verbatim>\<open>Math.round\<close> rounds a half towards plus infinity, which is \<^const>\<open>round\<close> of HOL
  (\<open>round x = \<lfloor>x + 1/2\<rfloor>\<close>).  Where the source rounds a product to an integer (the
  effective score, the confidence, the emotional index) the product is the double-precision
  one, \<open>fl\<close> of the exact product, since the two can round to different integers; the
  sparkline arithmetic is taken exactly.  Strings are lists of \<^typ>\<open>char\<close>, one per code
  unit.  \<^verbatim>\<open>toLowerCase\<close> is modelled on the letters A-Z, which is all that a search for an
  ASCII word depends on; the case folding of the regular expression engine is a parameter
  of the highlighter.
\<close>

definition toInt32 :: "int \<Rightarrow> int" where
  \<comment> \<open>the result of \<^verbatim>\<open>x & 0xffffffff\<close>: the value modulo \<open>2^32\<close>, read as signed\<close>
  "toInt32 x = (x + 2 ^ 31) mod 2 ^ 32 - 2 ^ 31"

definition toUint32 :: "int \<Rightarrow> int" where
  \<comment> \<open>\<^verbatim>\<open>x >>> 0\<close>\<close>
  "toUint32 x = x mod 2 ^ 32"

text \<open>
  Double precision: \<open>fl x\<close> is the double nearest to \<open>x\<close>, ties to the even significand,
  with 53 significant bits and gradual underflow below \<open>2^-1022\<close>.  Overflow (from
  \<open>2^1024\<close> on) is outside the model.  The number fields of a record hold doubles, and the
  literal \<^verbatim>\<open>1.2\<close> of the source is \<open>fl 1.2\<close>.
\<close>

definition pow2 :: "int \<Rightarrow> rat" where
  "pow2 k = (if 0 \<le> k then 2 ^ nat k else 1 / 2 ^ nat (- k))"

definition floor_log2 :: "rat \<Rightarrow> int" where
  \<comment> \<open>for \<open>x > 0\<close>: the \<open>e\<close> with \<open>2^e \<le> x < 2^(e+1)\<close>\<close>
  "floor_log2 x =
     (case quotient_of x of
        (a, b) \<Rightarrow> let k = bitlen a - bitlen b in if pow2 k \<le> x then k else k - 1)"

definition round_half_even :: "rat \<Rightarrow> int" where
  "round_half_even x =
     (let f = \<lfloor>x\<rfloor>; d = x - of_int f
      in if d < 1 / 2 then f else if 1 / 2 < d then f + 1 else if even f then f else f + 1)"

definition fl :: "rat \<Rightarrow> rat" where
  "fl x =
     (if x = 0 then 0
      else let e = max (floor_log2 \<bar>x\<bar>) (- 1022); q = pow2 (e - 52)
           in of_int (round_half_even (x / q)) * q)"

definition toLowerChar :: "char \<Rightarrow> char" where
  "toLowerChar c =
     (let n = (of_char c :: nat) in if 65 \<le> n \<and> n \<le> 90 then char_of (n + 32) else c)"

definition toLowerCase :: "string \<Rightarrow> string" where
  "toLowerCase s = map toLowerChar s"

fun includes_str :: "string \<Rightarrow> string \<Rightarrow> bool" where
  \<comment> \<open>\<^verbatim>\<open>s.includes(p)\<close>\<close>
  "includes_str [] p = (p = [])"
| "includes_str (c # cs) p = (take (length p) (c # cs) = p \<or> includes_str cs p)"

definition contains_ci :: "string \<Rightarrow> string \<Rightarrow> bool" where
  \<comment> \<open>the text has an occurrence of the word, letter case ignored\<close>
  "contains_ci t w =
     (\<exists>pre mid post. t = pre @ mid @ post \<and> toLowerCase mid = toLowerCase w)"


section \<open>Seeded random source and sparklines\<close>

text \<open>
  \<^verbatim>\<open>const seededRand = (seed) => { let s = seed;
     return () => { s = (s * 1664525 + 1013904223) & 0xffffffff;
                    return (s >>> 0) / 0xffffffff; }; };\<close>
  The closure's variable \<open>s\<close> is passed explicitly: \<open>rand s\<close> is one call, returning
  the new \<open>s\<close> and the draw.  For \<open>\<bar>s\<bar> < 2^32\<close> the product and sum stay below \<open>2^53\<close>,
  so the double arithmetic of the source is exact integer arithmetic.
\<close>

definition seededRand :: "int \<Rightarrow> int" where
  \<comment> \<open>creating the generator: \<^verbatim>\<open>let s = seed\<close>\<close>
  "seededRand seed = seed"

definition rand :: "int \<Rightarrow> int \<times> rat" where
  \<comment> \<open>one call of the generator whose variable holds \<open>s\<close>\<close>
  "rand s = (let s' = toInt32 (s * 1664525 + 1013904223)
             in (s', of_int (toUint32 s') / 4294967295))"

fun state_after :: "int \<Rightarrow> nat \<Rightarrow> int" where
  \<comment> \<open>the closure's \<open>s\<close> after \<open>k\<close> calls, starting from the seed\<close>
  "state_after s 0 = s"
| "state_after s (Suc k) = fst (rand (state_after s k))"

definition nth_draw :: "int \<Rightarrow> nat \<Rightarrow> rat" where
  \<comment> \<open>the value returned by call number \<open>k\<close> (counted from 0) of \<^verbatim>\<open>seededRand(s)\<close>\<close>
  "nth_draw s k = snd (rand (state_after s k))"

text \<open>
  \<^verbatim>\<open>(val, seed = 42) => { const rand = seededRand(seed + Math.round(val));
     return Array.from({ length: 7 }, (_, i) =>
       Math.max(0, val - (6 - i) * (val / 12) + rand() * 4)); }\<close>
  \<^verbatim>\<open>Array.from\<close> calls the function for \<open>i = 0, \<dots>, 6\<close> in this order; each call
  advances the generator.
\<close>

definition spark_point :: "rat \<Rightarrow> nat \<Rightarrow> rat \<Rightarrow> rat" where
  \<comment> \<open>the body of the arrow function, \<open>r\<close> being what \<^verbatim>\<open>rand()\<close> returned\<close>
  "spark_point val i r = max 0 (val - (6 - of_nat i) * (val / 12) + r * 4)"

fun spark_points :: "rat \<Rightarrow> int \<Rightarrow> nat list \<Rightarrow> rat list" where
  "spark_points val s [] = []"
| "spark_points val s (i # is) =
     (case rand s of (s', r) \<Rightarrow> spark_point val i r # spark_points val s' is)"

definition makeSparkline :: "rat \<Rightarrow> int \<Rightarrow> rat list" where
  "makeSparkline val seed = spark_points val (seededRand (seed + round val)) [0..<7]"


section \<open>Derived metrics\<close>

text \<open>
  The fields of \<^verbatim>\<open>interface AnalysisData\<close> that the modelled functions read;
  \<open>sentiment_score\<close> is \<^verbatim>\<open>behavioral_analysis.sentiment.score\<close>.  \<open>entities\<close> lists the
  mapping in the order of \<^verbatim>\<open>Object.entries\<close>; it is \<open>None\<close> when the record received from
  the analysis service has no such field, the case that the guard of \<^verbatim>\<open>highlightText\<close>
  answers.
\<close>

record AnalysisData =
  report_id :: string
  original_text :: string
  entities :: "(string \<times> string list) list option"
  overall_risk_score :: rat
  risk_percentile :: rat
  confidence_score :: rat
  feature_contributions :: "string \<rightharpoonup> rat"
  sentiment_score :: rat

text \<open>
  The component state that the derived values read: \<open>d\<close> is \<^verbatim>\<open>data\<close>
  (\<^verbatim>\<open>AnalysisData | null\<close>), \<open>text\<close> the input box, \<open>execMode\<close> the toggle.
\<close>

definition score :: "AnalysisData option \<Rightarrow> rat" where
  "score d = (case d of None \<Rightarrow> 0 | Some r \<Rightarrow> overall_risk_score r)"

definition effectiveScore :: "AnalysisData option \<Rightarrow> bool \<Rightarrow> rat" where
  "effectiveScore d execMode =
     (if execMode then min (of_int (round (fl (score d * fl 1.2)))) 100 else score d)"

definition confidence :: "AnalysisData option \<Rightarrow> int" where
  "confidence d =
     (case d of None \<Rightarrow> 0 | Some r \<Rightarrow> round (fl (confidence_score r * 100)))"

definition percentile :: "AnalysisData option \<Rightarrow> rat" where
  "percentile d = (case d of None \<Rightarrow> 0 | Some r \<Rightarrow> risk_percentile r)"

definition feature :: "AnalysisData option \<Rightarrow> string \<Rightarrow> rat" where
  \<comment> \<open>\<^verbatim>\<open>data?.feature_contributions?.KEY ?? 0\<close>\<close>
  "feature d k =
     (case d of None \<Rightarrow> 0
      | Some r \<Rightarrow> (case feature_contributions r k of None \<Rightarrow> 0 | Some v \<Rightarrow> v))"

definition identityIdx :: "AnalysisData option \<Rightarrow> rat" where
  "identityIdx d = feature d ''PERSON''"

definition locationIdx :: "AnalysisData option \<Rightarrow> rat" where
  "locationIdx d = feature d ''GPE''"

definition corpIdx :: "AnalysisData option \<Rightarrow> rat" where
  "corpIdx d = feature d ''ORG''"

definition emoIdx :: "AnalysisData option \<Rightarrow> int" where
  "emoIdx d = round (fl ((case d of None \<Rightarrow> 0 | Some r \<Rightarrow> sentiment_score r) * 100))"

definition familyIdx :: "AnalysisData option \<Rightarrow> string \<Rightarrow> int" where
  \<comment> \<open>\<^verbatim>\<open>(data?.original_text ?? text).toLowerCase().includes("family") ? 73 : 0\<close>\<close>
  "familyIdx d text =
     (if includes_str (toLowerCase (case d of None \<Rightarrow> text | Some r \<Rightarrow> original_text r))
           ''family''
      then 73 else 0)"

definition getRiskColor :: "bool \<Rightarrow> rat \<Rightarrow> string" where
  "getRiskColor execMode s =
     (if execMode then ''#f87171''
      else if s \<le> 30 then ''#4ade80''
      else if s \<le> 60 then ''#facc15''
      else if s \<le> 80 then ''#fb923c''
      else ''#f87171'')"

definition getRiskLabel :: "rat \<Rightarrow> string" where
  "getRiskLabel s =
     (if s \<le> 30 then ''Low Risk''
      else if s \<le> 60 then ''Moderate Risk''
      else if s \<le> 80 then ''High Risk''
      else ''Critical Risk'')"

definition riskColor :: "AnalysisData option \<Rightarrow> bool \<Rightarrow> string" where
  \<comment> \<open>\<^verbatim>\<open>getRiskColor()\<close>: the parameter defaults to \<^verbatim>\<open>effectiveScore\<close>\<close>
  "riskColor d execMode = getRiskColor execMode (effectiveScore d execMode)"

definition riskLabel :: "AnalysisData option \<Rightarrow> bool \<Rightarrow> string" where
  \<comment> \<open>\<^verbatim>\<open>getRiskLabel()\<close>\<close>
  "riskLabel d execMode = getRiskLabel (effectiveScore d execMode)"


section \<open>Entity highlighting\<close>

text \<open>
  \<^verbatim>\<open>const esc = v.replace(/[-/\\^$*+?.()|[\]{}]/g, "\\$&");\<close>
  Every character of the class gets a backslash in front.
\<close>

definition regex_special :: "char \<Rightarrow> bool" where
  "regex_special c = (c \<in> set (CHR 0x5C # ''-/^$*+?.()|[]{}''))"

definition escapeRegExp :: "string \<Rightarrow> string" where
  "escapeRegExp v = concat (map (\<lambda>c. if regex_special c then [CHR 0x5C, c] else [c]) v)"

text \<open>
  \<^verbatim>\<open>new RegExp(`(${esc})`, "gi")\<close> is the language's regular expression engine, not code
  of the repository.  The part of it that the highlighter relies on is modelled: in a
  pattern without the \<open>u\<close> flag the syntax characters are
  \<^verbatim>\<open>^ $ \ . * + ? ( ) [ ] { } |\<close>; any other character stands for itself, and a
  backslash followed by a syntax character, by \<^verbatim>\<open>/\<close> or by \<^verbatim>\<open>-\<close> stands for that character.
  \<open>parse_literal\<close> reads a pattern made of such atoms only and returns the characters it
  stands for; on any other pattern (an operator, a class or control escape, a backslash at
  the end, where the engine either throws a SyntaxError or matches something other than a
  fixed string) it returns \<open>None\<close>.
\<close>

definition syntax_char :: "char \<Rightarrow> bool" where
  "syntax_char c = (c \<in> set (CHR 0x5C # ''^$.*+?()[]{}|''))"

definition identity_escape :: "char \<Rightarrow> bool" where
  "identity_escape c = (syntax_char c \<or> c = CHR ''/'' \<or> c = CHR ''-'')"

fun parse_literal :: "string \<Rightarrow> string option" where
  "parse_literal [] = Some []"
| "parse_literal (c # cs) =
     (if c = CHR 0x5C then
        (case cs of
           [] \<Rightarrow> None
         | e # es \<Rightarrow> if identity_escape e then map_option ((#) e) (parse_literal es) else None)
      else if syntax_char c then None
      else map_option ((#) c) (parse_literal cs))"

definition RegExp_group :: "string \<Rightarrow> string option" where
  \<comment> \<open>a pattern that is one capture group around a literal\<close>
  "RegExp_group src =
     (case src of
        [] \<Rightarrow> None
      | c # cs \<Rightarrow>
          if c = CHR ''('' \<and> cs \<noteq> [] \<and> last cs = CHR '')'' then parse_literal (butlast cs)
          else None)"

text \<open>
  With the \<open>i\<close> flag two characters match when the engine's \<open>Canonicalize\<close> maps them to
  the same character.  That mapping is the case table of the language, which folds letters
  in and outside ASCII; it is the parameter \<open>cz\<close> of the functions below, so that what is
  proved holds for the table of the engine whatever it folds.  With the \<open>g\<close> flag
  \<^verbatim>\<open>replace\<close> scans from the left: at a match it emits the replacement and continues
  after the match, otherwise it copies one character.  An empty pattern matches at every
  index.  The replacement templates of the source are \<open>pre $1 post\<close>, where group 1 is
  the whole match.
\<close>

definition ci_match :: "(char \<Rightarrow> char) \<Rightarrow> string \<Rightarrow> string \<Rightarrow> bool" where
  \<comment> \<open>the literal matches at the start of \<open>s\<close>\<close>
  "ci_match cz lit s = (map cz (take (length lit) s) = map cz lit)"

function replace_ci ::
  "(char \<Rightarrow> char) \<Rightarrow> string \<Rightarrow> string \<Rightarrow> string \<Rightarrow> string \<Rightarrow> string" where
  "replace_ci cz lit pre post [] = (if lit = [] then pre @ post else [])"
| "replace_ci cz lit pre post (c # cs) =
     (if lit = [] then pre @ post @ c # replace_ci cz lit pre post cs
      else if ci_match cz lit (c # cs) then
        pre @ take (length lit) (c # cs) @ post
          @ replace_ci cz lit pre post (drop (length lit) (c # cs))
      else c # replace_ci cz lit pre post cs)"
  by pat_completeness auto
termination
  by (relation "measure (\<lambda>(cz, lit, pre, post, s). length s)") auto

definition span_open :: "string \<Rightarrow> string" where
  "span_open color =
     ''<span style=\"background:'' @ color @ ''30;color:'' @ color @ '';border:1px solid ''
       @ color @ ''60;border-radius:4px;padding:0 3px;font-weight:600;\">''"

definition span_close :: string where
  "span_close = ''</span>''"

definition colorMap :: "string \<rightharpoonup> string" where
  "colorMap = map_of [(''GPE'', ''#f97316''), (''PERSON'', ''#60a5fa''),
                      (''ORG'', ''#22d3ee''), (''DATE'', ''#a78bfa'')]"

definition entity_color :: "string \<Rightarrow> string" where
  \<comment> \<open>\<^verbatim>\<open>colorMap[label] || "#a78bfa"\<close>; labels are entity types, a label naming a
      property that every object inherits (such as \<^verbatim>\<open>constructor\<close>) is not modelled\<close>
  "entity_color label = (case colorMap label of None \<Rightarrow> ''#a78bfa'' | Some c \<Rightarrow> c)"

datatype hl_error = SyntaxError string

definition highlight_value ::
  "(char \<Rightarrow> char) \<Rightarrow> string \<Rightarrow> string \<Rightarrow> string \<Rightarrow> hl_error + string" where
  \<comment> \<open>the body of \<^verbatim>\<open>vals.forEach\<close> for entity type \<open>label\<close> and value \<open>v\<close>\<close>
  "highlight_value cz label v html =
     (let color = entity_color label;
          esc = escapeRegExp v
      in case RegExp_group (''('' @ esc @ '')'') of
           None \<Rightarrow> Inl (SyntaxError esc)
         | Some lit \<Rightarrow> Inr (replace_ci cz lit (span_open color) span_close html))"

fun highlight_values ::
  "(char \<Rightarrow> char) \<Rightarrow> string \<Rightarrow> string list \<Rightarrow> string \<Rightarrow> hl_error + string" where
  "highlight_values cz label [] html = Inr html"
| "highlight_values cz label (v # vs) html =
     (case highlight_value cz label v html of
        Inl e \<Rightarrow> Inl e
      | Inr html' \<Rightarrow> highlight_values cz label vs html')"

fun highlight_entities ::
  "(char \<Rightarrow> char) \<Rightarrow> (string \<times> string list) list \<Rightarrow> string \<Rightarrow> hl_error + string" where
  "highlight_entities cz [] html = Inr html"
| "highlight_entities cz ((label, vals) # es) html =
     (case highlight_values cz label vals html of
        Inl e \<Rightarrow> Inl e
      | Inr html' \<Rightarrow> highlight_entities cz es html')"

definition family_open :: string where
  "family_open =
     ''<span style=\"background:#f8717140;color:#f87171;border:1px solid #f8717160;''
       @ ''border-radius:4px;padding:0 3px;font-weight:600;\">''"

definition highlightText ::
  "(char \<Rightarrow> char) \<Rightarrow> AnalysisData option \<Rightarrow> string \<Rightarrow> hl_error + string" where
  \<comment> \<open>\<^verbatim>\<open>if (!data?.entities) return raw;\<close> comes first\<close>
  "highlightText cz d raw =
     (case d of
        None \<Rightarrow> Inr raw
      | Some r \<Rightarrow>
          (case entities r of
             None \<Rightarrow> Inr raw
           | Some es \<Rightarrow>
               (case highlight_entities cz es raw of
                  Inl e \<Rightarrow> Inl e
                | Inr html \<Rightarrow> Inr (replace_ci cz ''family'' family_open span_close html))))"

definition ascii_canonicalize :: "char \<Rightarrow> char" where
  \<comment> \<open>what \<open>Canonicalize\<close> does to ASCII characters: a-z go to A-Z; for the examples, whose
      texts are ASCII\<close>
  "ascii_canonicalize c =
     (case map_of (zip ''abcdefghijklmnopqrstuvwxyz'' ''ABCDEFGHIJKLMNOPQRSTUVWXYZ'') c of
        None \<Rightarrow> c
      | Some u \<Rightarrow> u)"

text \<open>
  What it means that a replacement wrapped exactly the occurrences of a word, letter case
  ignored.  The word occurs at position \<open>p\<close> of a text when the text is \<open>a @ m @ b\<close> with
  \<open>a\<close> of length \<open>p\<close> and \<open>m\<close> equal to the word up to case.  The text is cut into
  consecutive segments, each marked as wrapped or copied: a wrapped segment is an
  occurrence, and at no position of a copied segment does an occurrence start (an
  occurrence may not begin in a copied segment, not even one that runs on into the next
  segment).  The output wraps the marked segments and copies the others.
\<close>

definition ci_eq :: "(char \<Rightarrow> char) \<Rightarrow> string \<Rightarrow> string \<Rightarrow> bool" where
  "ci_eq cz a b = (map cz a = map cz b)"

definition occurs_at :: "(char \<Rightarrow> char) \<Rightarrow> string \<Rightarrow> string \<Rightarrow> nat \<Rightarrow> bool" where
  "occurs_at cz lit s p = (\<exists>a m b. s = a @ m @ b \<and> length a = p \<and> ci_eq cz m lit)"

fun exact_segments ::
  "(char \<Rightarrow> char) \<Rightarrow> string \<Rightarrow> (bool \<times> string) list \<Rightarrow> string \<Rightarrow> bool" where
  \<comment> \<open>the last argument is the part of the text that the segments still have to cover\<close>
  "exact_segments cz lit [] s = (s = [])"
| "exact_segments cz lit ((m, t) # segs) s =
     (take (length t) s = t
      \<and> (if m then ci_eq cz t lit else (\<forall>j < length t. \<not> occurs_at cz lit s j))
      \<and> exact_segments cz lit segs (drop (length t) s))"

definition wrap_segments :: "string \<Rightarrow> string \<Rightarrow> (bool \<times> string) list \<Rightarrow> string" where
  "wrap_segments pre post segs =
     concat (map (\<lambda>(m, t). if m then pre @ t @ post else t) segs)"

definition wraps_exactly ::
  "(char \<Rightarrow> char) \<Rightarrow> string \<Rightarrow> string \<Rightarrow> string \<Rightarrow> string \<Rightarrow> string \<Rightarrow> bool" where
  "wraps_exactly cz lit pre post s out =
     (\<exists>segs. exact_segments cz lit segs s \<and> out = wrap_segments pre post segs)"


section \<open>Count-up animation\<close>

text \<open>
  \<^verbatim>\<open>function useCountUp(target, duration = 1000, trigger = true) {
     const [current, setCurrent] = useState(0);
     useEffect(() => {
       if (!trigger) return;
       let start = null;  const initial = 0;
       const step = (ts) => {
         if (!start) start = ts;
         const progress = Math.min((ts - start) / duration, 1);
         const eased = 1 - Math.pow(1 - progress, 3);
         setCurrent(Math.round(initial + (target - initial) * eased));
         if (progress < 1) requestAnimationFrame(step);
       };
       requestAnimationFrame(step);
     }, [target, trigger]);
     return current; }\<close>
  The state of one hook instance is the displayed value and the queue of callbacks handed
  to \<^verbatim>\<open>requestAnimationFrame\<close> and not yet run; a queued callback is a \<open>step\<close> closure
  with its \<open>target\<close>, \<open>duration\<close> and \<open>start\<close>.  \<open>useCountUp_effect\<close> is one run of
  the effect (at mount and whenever \<open>target\<close> or \<open>trigger\<close> changed); the effect returns
  no cleanup function.  \<open>animation_frame ts\<close> is one display frame at time stamp \<open>ts\<close>:
  the callbacks queued before the frame run in order, those they queue wait for the next
  frame.
  \<^verbatim>\<open>!start\<close> holds for \<^verbatim>\<open>null\<close> and for 0.  Durations are positive.
\<close>

record cu_task =
  cu_target :: rat
  cu_duration :: rat
  cu_start :: "rat option"

record cu_state =
  current :: int
  pending :: "cu_task list"

definition cu_init :: cu_state where
  "cu_init = \<lparr>current = 0, pending = []\<rparr>"

definition useCountUp_effect :: "rat \<Rightarrow> rat \<Rightarrow> bool \<Rightarrow> cu_state \<Rightarrow> cu_state" where
  "useCountUp_effect target duration trigger st =
     (if \<not> trigger then st
      else st\<lparr>pending := pending st
                  @ [\<lparr>cu_target = target, cu_duration = duration, cu_start = None\<rparr>]\<rparr>)"

definition useCountUp_step ::
  "rat \<Rightarrow> cu_task \<Rightarrow> int \<times> cu_task list \<Rightarrow> int \<times> cu_task list" where
  \<comment> \<open>one call of \<open>step\<close>; the pair holds the displayed value and the callbacks queued for
      the next frame\<close>
  "useCountUp_step ts task acc =
     (let start = (case cu_start task of
                     None \<Rightarrow> ts
                   | Some s \<Rightarrow> if s = 0 then ts else s);
          progress = min ((ts - start) / cu_duration task) 1;
          eased = 1 - (1 - progress) ^ 3;
          cur = round (0 + (cu_target task - 0) * eased)
      in (cur, if progress < 1 then snd acc @ [task\<lparr>cu_start := Some start\<rparr>] else snd acc))"

definition animation_frame :: "rat \<Rightarrow> cu_state \<Rightarrow> cu_state" where
  "animation_frame ts st =
     (case fold (useCountUp_step ts) (pending st) (current st, []) of
        (cur, queue) \<Rightarrow> \<lparr>current = cur, pending = queue\<rparr>)"


section \<open>Typewriter animation\<close>

text \<open>
  \<^verbatim>\<open>function useTypewriter(text, speed = 12, trigger = true) {
     const [displayed, setDisplayed] = useState("");
     useEffect(() => {
       if (!trigger || !text) return;
       setDisplayed("");
       let i = 0;
       const id = setInterval(() => {
         i++;
         setDisplayed(text.slice(0, i));
         if (i >= text.length) clearInterval(id);
       }, speed);
       return () => clearInterval(id);
     }, [text, trigger]);
     return displayed; }\<close>
  The state of one hook instance: the displayed string, the intervals that are set (each
  with its id, the \<open>text\<close> and the \<open>i\<close> of its closure), and the id that the cleanup
  function returned by the last effect run will clear, if that run returned one.  Before
  an effect runs again, and at unmount, the cleanup of the previous run is called.  Only
  an interval that is set can tick.
\<close>

record tw_timer =
  tw_id :: nat
  tw_text :: string
  tw_i :: nat

record tw_state =
  displayed :: string
  timers :: "tw_timer list"
  cleanup :: "nat option"
  next_id :: nat

definition tw_init :: tw_state where
  "tw_init = \<lparr>displayed = [], timers = [], cleanup = None, next_id = 0\<rparr>"

definition clearInterval :: "nat \<Rightarrow> tw_timer list \<Rightarrow> tw_timer list" where
  "clearInterval n ts = filter (\<lambda>t. tw_id t \<noteq> n) ts"

definition useTypewriter_cleanup :: "tw_state \<Rightarrow> tw_state" where
  "useTypewriter_cleanup st =
     (case cleanup st of
        None \<Rightarrow> st
      | Some n \<Rightarrow> st\<lparr>timers := clearInterval n (timers st), cleanup := None\<rparr>)"

definition useTypewriter_effect :: "string \<Rightarrow> bool \<Rightarrow> tw_state \<Rightarrow> tw_state" where
  "useTypewriter_effect text trigger st0 =
     (let st = useTypewriter_cleanup st0 in
      if \<not> trigger \<or> text = [] then st
      else st\<lparr>displayed := [],
              timers := timers st @ [\<lparr>tw_id = next_id st, tw_text = text, tw_i = 0\<rparr>],
              cleanup := Some (next_id st),
              next_id := Suc (next_id st)\<rparr>)"

definition useTypewriter_tick :: "nat \<Rightarrow> tw_state \<Rightarrow> tw_state" where
  \<comment> \<open>the callback of interval \<open>n\<close> fires, if that interval is set\<close>
  "useTypewriter_tick n st =
     (case find (\<lambda>t. tw_id t = n) (timers st) of
        None \<Rightarrow> st
      | Some t \<Rightarrow>
          let i = Suc (tw_i t) in
          st\<lparr>displayed := take i (tw_text t),
             timers := (if i \<ge> length (tw_text t) then clearInterval n (timers st)
                        else map (\<lambda>u. if tw_id u = n then u\<lparr>tw_i := i\<rparr> else u) (timers st))\<rparr>)"

datatype tw_event = Effect string bool | Tick nat | Unmount

fun tw_do :: "tw_event \<Rightarrow> tw_state \<Rightarrow> tw_state" where
  "tw_do (Effect text trigger) st = useTypewriter_effect text trigger st"
| "tw_do (Tick n) st = useTypewriter_tick n st"
| "tw_do Unmount st = useTypewriter_cleanup st"

definition tw_run :: "tw_event list \<Rightarrow> tw_state \<Rightarrow> tw_state" where
  "tw_run es st = fold tw_do es st"


definition tw_inv :: "tw_state \<Rightarrow> bool" where
  \<comment> \<open>every interval that is set is the one the pending cleanup will clear\<close>
  "tw_inv st = (\<forall>u \<in> set (timers st). cleanup st = Some (tw_id u))"

definition tw_revealing :: "nat \<Rightarrow> string \<Rightarrow> tw_state \<Rightarrow> bool" where
  \<comment> \<open>a prefix of \<open>t\<close> is displayed, and at most interval \<open>n\<close> for \<open>t\<close> is set\<close>
  "tw_revealing n t st =
     (\<exists>j \<le> length t. displayed st = take j t
        \<and> (timers st = [] \<or> (j < length t \<and> timers st = [\<lparr>tw_id = n, tw_text = t, tw_i = j\<rparr>])))"


section \<open>The random source\<close>

lemma toUint32_toInt32: "toUint32 (toInt32 x) = x mod 2 ^ 32"
proof -
  have "((x + 2 ^ 31) mod 2 ^ 32 - 2 ^ 31) mod 2 ^ 32 = (x + 2 ^ 31 - 2 ^ 31) mod (2 ^ 32 :: int)"
    by (rule mod_diff_left_eq)
  then show ?thesis
    by (simp add: toUint32_def toInt32_def)
qed

lemma toUint32_range: "0 \<le> toUint32 x \<and> toUint32 x \<le> 4294967295"
proof -
  have "0 \<le> x mod 4294967296" "x mod 4294967296 < 4294967296"
    by simp_all
  then show ?thesis
    by (simp add: toUint32_def)
qed

lemma rand_state: "toUint32 (fst (rand s)) = (s * 1664525 + 1013904223) mod 2 ^ 32"
  by (simp add: rand_def Let_def toUint32_toInt32)

lemma rand_draw: "snd (rand s) = of_int (toUint32 (fst (rand s))) / 4294967295"
  by (simp add: rand_def Let_def)

lemma rand_draw_range: "0 \<le> snd (rand s) \<and> snd (rand s) \<le> 1"
proof -
  let ?u = "toUint32 (fst (rand s))"
  have "0 \<le> ?u" "?u \<le> 4294967295"
    using toUint32_range [of "fst (rand s)"] by simp_all
  then have "(0::rat) \<le> of_int ?u" "(of_int ?u :: rat) \<le> 4294967295"
    by simp_all
  then show ?thesis
    by (simp add: rand_draw)
qed

lemma nth_draw_nonneg: "0 \<le> nth_draw s k"
  by (simp add: nth_draw_def rand_draw_range)

text \<open>
  C2, as amended.  One call replaces the state by
  \<open>(state * 1664525 + 1013904223) mod 2^32\<close> (kept as a signed 32-bit value, read
  unsigned for the draw) and returns that state divided by \<open>2^32 - 1\<close>, the constant
  \<^verbatim>\<open>0xffffffff\<close> of the source.  The draw lies in the closed interval from 0 to 1, and it
  is 1 exactly when the state is \<open>2^32 - 1\<close>.
\<close>

theorem seededRand_draw_closed_unit:
  "toUint32 (fst (rand s)) = (s * 1664525 + 1013904223) mod 2 ^ 32
   \<and> snd (rand s) = of_int (toUint32 (fst (rand s))) / (2 ^ 32 - 1)
   \<and> 0 \<le> snd (rand s) \<and> snd (rand s) \<le> 1
   \<and> (snd (rand s) = 1) = (toUint32 (fst (rand s)) = 2 ^ 32 - 1)"
proof -
  have eq: "(snd (rand s) = 1) = (toUint32 (fst (rand s)) = 2 ^ 32 - 1)"
  proof -
    have "(snd (rand s) = 1) = ((of_int (toUint32 (fst (rand s))) :: rat) = 4294967295)"
      by (simp add: rand_draw)
    also have "\<dots> = ((of_int (toUint32 (fst (rand s))) :: rat) = of_int 4294967295)"
      by simp
    also have "\<dots> = (toUint32 (fst (rand s)) = 4294967295)"
      by (simp only: of_int_eq_iff)
    finally show ?thesis by simp
  qed
  show ?thesis
    using rand_state [of s] rand_draw [of s] rand_draw_range [of s] eq by simp
qed

text \<open>
  C2, as stated, fails.  With seed 1 the first draw is \<open>1015568748 / (2^32 - 1)\<close>, not
  the state divided by \<open>2^32\<close>; with seed 653637408 the state becomes \<open>2^32 - 1\<close> and the
  draw is exactly 1.
\<close>

theorem seededRand_draw_counterexample:
  "snd (rand 1) \<noteq> of_int (toUint32 (fst (rand 1))) / 2 ^ 32
   \<and> toUint32 (fst (rand 653637408)) = 2 ^ 32 - 1
   \<and> snd (rand 653637408) = 1"
  by (simp add: rand_def Let_def toInt32_def toUint32_def)

section \<open>Sparklines\<close>

lemma state_after_shift: "state_after (fst (rand s)) k = state_after s (Suc k)"
  by (induction k) simp_all

lemma nth_draw_shift: "nth_draw (fst (rand s)) k = nth_draw s (Suc k)"
  unfolding nth_draw_def by (simp only: state_after_shift)

lemma spark_points_closed:
  "spark_points val s is = map (\<lambda>k. spark_point val (is ! k) (nth_draw s k)) [0..<length is]"
proof (induction "is" arbitrary: s)
  case Nil
  show ?case by simp
next
  case (Cons i "is")
  have first: "snd (rand s) = nth_draw s 0"
    by (simp add: nth_draw_def)
  have "spark_points val s (i # is) =
          spark_point val i (snd (rand s)) # spark_points val (fst (rand s)) is"
    by (simp split: prod.split)
  also have "spark_points val (fst (rand s)) is =
          map (\<lambda>k. spark_point val (is ! k) (nth_draw s (Suc k))) [0..<length is]"
    by (simp add: Cons.IH nth_draw_shift)
  also have "\<dots> = map (\<lambda>k. spark_point val ((i # is) ! k) (nth_draw s k)) (map Suc [0..<length is])"
    by (simp add: comp_def)
  finally show ?case
    by (simp add: first upt_conv_Cons map_Suc_upt del: upt_Suc)
qed

lemma makeSparkline_closed:
  "makeSparkline val seed =
     map (\<lambda>i. spark_point val i (nth_draw (seed + round val) i)) [0..<7]"
proof -
  have "makeSparkline val seed =
       map (\<lambda>k. spark_point val ([0..<7] ! k) (nth_draw (seed + round val) k)) [0..<7]"
    unfolding makeSparkline_def seededRand_def by (subst spark_points_closed) simp
  also have "\<dots> = map (\<lambda>i. spark_point val i (nth_draw (seed + round val) i)) [0..<7]"
    by (rule map_cong) (simp_all del: upt_Suc)
  finally show ?thesis .
qed

lemma spark_point_nonneg: "0 \<le> spark_point val i r"
  by (simp add: spark_point_def)

text \<open>
  C1.  The synthesizer returns 7 points; point \<open>i\<close> (from 0) is
  \<open>max 0 (val - (6 - i) * (val / 12) + draw\<^sub>i * 4)\<close>, where \<open>draw\<^sub>i\<close> is the draw number \<open>i\<close>
  of the generator seeded with \<open>seed + round val\<close>: one draw per point, in point order.
  The generator is created inside the call, so the result is this function of
  \<open>(val, seed)\<close> alone and two calls with the same arguments give the same sequence.
\<close>

theorem makeSparkline_points:
  "length (makeSparkline val seed) = 7
   \<and> makeSparkline val seed =
       map (\<lambda>i. max 0 (val - (6 - of_nat i) * (val / 12) + nth_draw (seed + round val) i * 4))
         [0..<7]"
  by (simp add: makeSparkline_closed spark_point_def del: upt_Suc)

text \<open>
  C10.  For a target value that is not negative the seventh point is at least the
  target, and every point is at least 0.
\<close>

theorem makeSparkline_ends_at_target:
  assumes "0 \<le> val"
  shows "val \<le> makeSparkline val seed ! 6 \<and> (\<forall>p \<in> set (makeSparkline val seed). 0 \<le> p)"
proof -
  have "makeSparkline val seed ! 6 = spark_point val 6 (nth_draw (seed + round val) 6)"
    by (simp add: makeSparkline_closed del: upt_Suc)
  also have "\<dots> = max 0 (val + nth_draw (seed + round val) 6 * 4)"
    by (simp add: spark_point_def)
  finally have last: "makeSparkline val seed ! 6 = max 0 (val + nth_draw (seed + round val) 6 * 4)" .
  have "0 \<le> nth_draw (seed + round val) 6 * 4"
    using nth_draw_nonneg [of "seed + round val" 6] by simp
  then have "val \<le> makeSparkline val seed ! 6"
    unfolding last by simp
  moreover have "\<forall>p \<in> set (makeSparkline val seed). 0 \<le> p"
    by (auto simp: makeSparkline_closed spark_point_nonneg simp del: upt_Suc)
  ultimately show ?thesis by simp
qed

theorem makeSparkline_ends_at_target_witness:
  "(0::rat) \<le> 50 \<and> 50 \<le> makeSparkline 50 1 ! 6 \<and> 0 \<le> makeSparkline 50 1 ! 0"
proof -
  have pos: "(0::rat) \<le> 50"
    by simp
  have "length (makeSparkline 50 1) = 7"
    by (simp add: makeSparkline_closed del: upt_Suc)
  then have "makeSparkline 50 1 ! 0 \<in> set (makeSparkline 50 1)"
    by (intro nth_mem) simp
  with makeSparkline_ends_at_target [OF pos, of 1] pos show ?thesis
    by blast
qed


section \<open>Derived metrics and risk classes\<close>

lemma includes_str_iff: "includes_str s p = (\<exists>pre post. s = pre @ p @ post)"
proof (induction s)
  case Nil
  show ?case by auto
next
  case (Cons c cs)
  show ?case
  proof
    assume "includes_str (c # cs) p"
    then consider "take (length p) (c # cs) = p" | "includes_str cs p"
      by auto
    then show "\<exists>pre post. c # cs = pre @ p @ post"
    proof cases
      case 1
      then have "c # cs = [] @ p @ drop (length p) (c # cs)"
        by (metis append_Nil append_take_drop_id)
      then show ?thesis by blast
    next
      case 2
      with Cons.IH obtain pre post where "cs = pre @ p @ post" by blast
      then have "c # cs = (c # pre) @ p @ post" by simp
      then show ?thesis by blast
    qed
  next
    assume "\<exists>pre post. c # cs = pre @ p @ post"
    then obtain pre post where dec: "c # cs = pre @ p @ post" by blast
    show "includes_str (c # cs) p"
    proof (cases pre)
      case Nil
      with dec have "take (length p) (c # cs) = p" by simp
      then show ?thesis by simp
    next
      case (Cons x pre')
      with dec have "cs = pre' @ p @ post" by simp
      with Cons.IH show ?thesis by auto
    qed
  qed
qed

lemma includes_lower_iff: "includes_str (toLowerCase t) (toLowerCase w) = contains_ci t w"
proof
  assume "includes_str (toLowerCase t) (toLowerCase w)"
  then obtain a b where dec: "toLowerCase t = a @ toLowerCase w @ b"
    by (auto simp: includes_str_iff)
  then obtain ta tm tb where "t = ta @ tm @ tb" "map toLowerChar tm = toLowerCase w"
    unfolding toLowerCase_def by (metis map_eq_append_conv)
  then show "contains_ci t w"
    by (auto simp: contains_ci_def toLowerCase_def)
next
  assume "contains_ci t w"
  then obtain a m b where "t = a @ m @ b" "toLowerCase m = toLowerCase w"
    by (auto simp: contains_ci_def)
  then have "toLowerCase t = toLowerCase a @ toLowerCase w @ toLowerCase b"
    by (simp add: toLowerCase_def)
  then show "includes_str (toLowerCase t) (toLowerCase w)"
    unfolding includes_str_iff by blast
qed

lemma fl_zero: "fl 0 = 0"
  by (simp add: fl_def)

lemma family_lower: "toLowerCase ''family'' = ''family''"
  by code_simp

lemma familyIdx_Some:
  "familyIdx (Some r) text = (if contains_ci (original_text r) ''family'' then 73 else 0)"
  using includes_lower_iff [of "original_text r" "''family''"]
  by (simp add: familyIdx_def family_lower)

lemma familyIdx_None: "familyIdx None text = (if contains_ci text ''family'' then 73 else 0)"
  using includes_lower_iff [of "text" "''family''"]
  by (simp add: familyIdx_def family_lower)

text \<open>
  C3.  With a record present: the effective score is \<open>min (round (score * 1.2)) 100\<close> in
  executive mode and the score otherwise, hence at most 100 for a score from 0 to 100; the
  identity, location and corporate indices are the feature contributions under
  \<open>PERSON\<close>, \<open>GPE\<close> and \<open>ORG\<close>, or 0 when the key is absent; the emotional index is
  \<open>round (sentiment score * 100)\<close>; the family exposure flag is 73 exactly when the
  record's text contains "family" in any letter case, else 0.  The two products are those
  of the source's number type, doubles: \<open>fl (score * fl 1.2)\<close> and
  \<open>fl (sentiment score * 100)\<close>.
\<close>

theorem derived_metrics_of_record:
  "effectiveScore (Some r) True
     = min (of_int (round (fl (overall_risk_score r * fl 1.2)))) 100
   \<and> effectiveScore (Some r) False = overall_risk_score r
   \<and> (0 \<le> overall_risk_score r \<and> overall_risk_score r \<le> 100
        \<longrightarrow> effectiveScore (Some r) execMode \<le> 100)
   \<and> identityIdx (Some r) = (case feature_contributions r ''PERSON'' of None \<Rightarrow> 0 | Some v \<Rightarrow> v)
   \<and> locationIdx (Some r) = (case feature_contributions r ''GPE'' of None \<Rightarrow> 0 | Some v \<Rightarrow> v)
   \<and> corpIdx (Some r) = (case feature_contributions r ''ORG'' of None \<Rightarrow> 0 | Some v \<Rightarrow> v)
   \<and> emoIdx (Some r) = round (fl (sentiment_score r * 100))
   \<and> familyIdx (Some r) text = (if contains_ci (original_text r) ''family'' then 73 else 0)"
  by (simp add: effectiveScore_def score_def identityIdx_def locationIdx_def corpIdx_def
      feature_def emoIdx_def familyIdx_Some)

theorem derived_metrics_of_record_witness:
  "(let r = \<lparr>report_id = ''r1'', original_text = ''My Family lives in Pune'',
        entities = Some [], overall_risk_score = 70, risk_percentile = 80,
        confidence_score = fl 0.9,
        feature_contributions = [''PERSON'' \<mapsto> 12, ''GPE'' \<mapsto> 20, ''ORG'' \<mapsto> 5],
        sentiment_score = fl 0.3\<rparr>
    in 0 \<le> overall_risk_score r \<and> overall_risk_score r \<le> 100
       \<and> effectiveScore (Some r) True \<le> 100
       \<and> effectiveScore (Some r) True = 84 \<and> effectiveScore (Some r) False = 70
       \<and> identityIdx (Some r) = 12 \<and> locationIdx (Some r) = 20 \<and> corpIdx (Some r) = 5
       \<and> emoIdx (Some r) = 30 \<and> familyIdx (Some r) '''' = 73
       \<and> emoIdx (Some (r\<lparr>sentiment_score := fl 0.015\<rparr>)) = 2
       \<and> effectiveScore (Some (r\<lparr>overall_risk_score := fl 7.083333333333333\<rparr>)) True = 9)"
proof -
  let ?r = "\<lparr>report_id = ''r1'', original_text = ''My Family lives in Pune'',
        entities = Some [], overall_risk_score = 70, risk_percentile = 80,
        confidence_score = fl 0.9,
        feature_contributions = [''PERSON'' \<mapsto> 12, ''GPE'' \<mapsto> 20, ''ORG'' \<mapsto> 5],
        sentiment_score = fl 0.3\<rparr>"
  have r84: "round (fl (70 * fl 1.2)) = 84"
    by code_simp
  have r30: "round (fl (fl 0.3 * 100)) = 30"
    by code_simp
  have r2: "round (fl (fl 0.015 * 100)) = 2"
    by code_simp
  have r9: "round (fl (fl 7.083333333333333 * fl 1.2)) = 9"
    by code_simp
  have "includes_str (toLowerCase ''My Family lives in Pune'') (toLowerCase ''family'')"
    by code_simp
  then have fam: "contains_ci ''My Family lives in Pune'' ''family''"
    by (simp only: includes_lower_iff)
  from derived_metrics_of_record [of ?r True "''''"]
    derived_metrics_of_record [of "?r\<lparr>sentiment_score := fl 0.015\<rparr>" True "''''"]
    derived_metrics_of_record [of "?r\<lparr>overall_risk_score := fl 7.083333333333333\<rparr>" True "''''"]
    r84 r30 r2 r9 fam
  show ?thesis
    unfolding Let_def by simp
qed

text \<open>
  C4.  The label is banded with inclusive upper bounds 30, 60 and 80, so that 30, 31, 60,
  61, 80 and 81 are Low, Moderate, Moderate, High, High and Critical.  In executive mode
  the colour is \<open>#f87171\<close> whatever the score, which is the hue of the critical band and
  of no other band, while the label shown is still the band of the effective score.
\<close>

theorem risk_label_bands:
  "(s \<le> 30 \<longrightarrow> getRiskLabel s = ''Low Risk'')
   \<and> (30 < s \<and> s \<le> 60 \<longrightarrow> getRiskLabel s = ''Moderate Risk'')
   \<and> (60 < s \<and> s \<le> 80 \<longrightarrow> getRiskLabel s = ''High Risk'')
   \<and> (80 < s \<longrightarrow> getRiskLabel s = ''Critical Risk'')
   \<and> map getRiskLabel [30, 31, 60, 61, 80, 81] =
       [''Low Risk'', ''Moderate Risk'', ''Moderate Risk'', ''High Risk'', ''High Risk'',
        ''Critical Risk'']
   \<and> (80 < s' \<longrightarrow> getRiskColor True s = getRiskColor False s')
   \<and> (80 < s' \<longrightarrow> riskColor d True = getRiskColor False s')
   \<and> riskLabel d execMode = getRiskLabel (effectiveScore d execMode)
   \<and> getRiskColor True s = ''#f87171''
   \<and> riskColor d True = ''#f87171''
   \<and> (s \<le> 30 \<longrightarrow> getRiskColor False s = ''#4ade80'')
   \<and> (30 < s \<and> s \<le> 60 \<longrightarrow> getRiskColor False s = ''#facc15'')
   \<and> (60 < s \<and> s \<le> 80 \<longrightarrow> getRiskColor False s = ''#fb923c'')
   \<and> (80 < s \<longrightarrow> getRiskColor False s = ''#f87171'')
   \<and> map (getRiskColor False) [30, 31, 60, 61, 80, 81] =
       [''#4ade80'', ''#facc15'', ''#facc15'', ''#fb923c'', ''#fb923c'', ''#f87171'']
   \<and> map (getRiskColor True) [30, 31, 60, 61, 80, 81] =
       [''#f87171'', ''#f87171'', ''#f87171'', ''#f87171'', ''#f87171'', ''#f87171'']"
  by (simp add: getRiskLabel_def getRiskColor_def riskColor_def riskLabel_def)

theorem risk_label_bands_witness:
  "(10::rat) \<le> 30 \<and> getRiskLabel 10 = ''Low Risk''
   \<and> (30::rat) < 45 \<and> (45::rat) \<le> 60 \<and> getRiskLabel 45 = ''Moderate Risk''
   \<and> (60::rat) < 70 \<and> (70::rat) \<le> 80 \<and> getRiskLabel 70 = ''High Risk''
   \<and> (80::rat) < 90 \<and> getRiskLabel 90 = ''Critical Risk''
   \<and> getRiskColor True 10 = getRiskColor False 90
   \<and> getRiskColor False 10 = ''#4ade80'' \<and> getRiskColor False 45 = ''#facc15''
   \<and> getRiskColor False 70 = ''#fb923c'' \<and> getRiskColor False 90 = ''#f87171''
   \<and> getRiskColor True 10 = ''#f87171''"
  using risk_label_bands [of 10 90] risk_label_bands [of 45] risk_label_bands [of 70]
    risk_label_bands [of 90]
  by simp

text \<open>
  C5, as amended.  Without a record the effective score, confidence, percentile, identity,
  location, corporate and emotional indices are 0.  The family exposure flag is computed
  from the text of the input box: 73 when that text contains "family" in any letter case,
  else 0.
\<close>

theorem metrics_without_record:
  "effectiveScore None execMode = 0 \<and> confidence None = 0 \<and> percentile None = 0
   \<and> identityIdx None = 0 \<and> locationIdx None = 0 \<and> corpIdx None = 0 \<and> emoIdx None = 0
   \<and> familyIdx None text = (if contains_ci text ''family'' then 73 else 0)"
  by (simp add: effectiveScore_def score_def confidence_def percentile_def identityIdx_def
      locationIdx_def corpIdx_def feature_def emoIdx_def familyIdx_None fl_zero)

text \<open>
  C5, as stated, fails: with no record and the input box holding "my Family", the family
  exposure flag is 73.
\<close>

theorem familyIdx_without_record_counterexample:
  "familyIdx None ''my Family'' = 73 \<and> familyIdx None ''my Family'' \<noteq> 0"
  by code_simp

section \<open>Entity highlighting: the escaped pattern and the replacement\<close>

lemma ci_eq_length: "ci_eq cz a b \<Longrightarrow> length a = length b"
  unfolding ci_eq_def by (rule map_eq_imp_length_eq)

lemma ci_match_length: "ci_match cz lit s \<Longrightarrow> length lit \<le> length s"
proof -
  assume "ci_match cz lit s"
  then have "length (take (length lit) s) = length lit"
    unfolding ci_match_def by (rule map_eq_imp_length_eq)
  then show ?thesis by simp
qed

lemma occurs_at_0: "occurs_at cz lit s 0 = ci_match cz lit s"
proof
  assume "occurs_at cz lit s 0"
  then obtain m b where dec: "s = m @ b" and eq: "ci_eq cz m lit"
    by (auto simp: occurs_at_def)
  from eq have "length m = length lit"
    by (rule ci_eq_length)
  with dec have "take (length lit) s = m"
    by simp
  with eq show "ci_match cz lit s"
    by (simp add: ci_match_def ci_eq_def)
next
  assume m: "ci_match cz lit s"
  have "s = [] @ take (length lit) s @ drop (length lit) s"
    by simp
  moreover have "ci_eq cz (take (length lit) s) lit"
    using m by (simp add: ci_match_def ci_eq_def)
  ultimately show "occurs_at cz lit s 0"
    unfolding occurs_at_def by (metis list.size(3))
qed

lemma occurs_at_Suc: "occurs_at cz lit (c # s) (Suc j) = occurs_at cz lit s j"
proof
  assume "occurs_at cz lit (c # s) (Suc j)"
  then obtain a m b where dec: "c # s = a @ m @ b" and len: "length a = Suc j"
    and eq: "ci_eq cz m lit"
    by (auto simp: occurs_at_def)
  from len obtain a' where a: "a = c # a'" "length a' = j"
    using dec by (cases a) auto
  with dec have "s = a' @ m @ b"
    by simp
  with a eq show "occurs_at cz lit s j"
    unfolding occurs_at_def by blast
next
  assume "occurs_at cz lit s j"
  then obtain a m b where "s = a @ m @ b" "length a = j" "ci_eq cz m lit"
    by (auto simp: occurs_at_def)
  then have "c # s = (c # a) @ m @ b" "length (c # a) = Suc j" "ci_eq cz m lit"
    by simp_all
  then show "occurs_at cz lit (c # s) (Suc j)"
    unfolding occurs_at_def by blast
qed

text \<open>The scan produces a segmentation of the kind described.\<close>

lemma replace_ci_segments:
  "lit \<noteq> [] \<Longrightarrow>
   \<exists>segs. exact_segments cz lit segs s \<and> replace_ci cz lit pre post s = wrap_segments pre post segs"
proof (induction cz lit pre post s rule: replace_ci.induct)
  case (1 cz lit pre post)
  then have "exact_segments cz lit [] [] \<and> replace_ci cz lit pre post [] = wrap_segments pre post []"
    by (simp add: wrap_segments_def)
  then show ?case by blast
next
  case (2 cz lit pre post c cs)
  note ne = \<open>lit \<noteq> []\<close>
  show ?case
  proof (cases "ci_match cz lit (c # cs)")
    case True
    let ?t = "take (length lit) (c # cs)"
    let ?rest = "drop (length lit) (c # cs)"
    from "2.IH"(2) ne True obtain segs where segs: "exact_segments cz lit segs ?rest"
      and out: "replace_ci cz lit pre post ?rest = wrap_segments pre post segs"
      by blast
    have len: "length ?t = length lit"
      using ci_match_length [OF True] by simp
    have "ci_eq cz ?t lit"
      using True by (simp add: ci_match_def ci_eq_def)
    with segs len have "exact_segments cz lit ((True, ?t) # segs) (c # cs)"
      by simp
    moreover have "replace_ci cz lit pre post (c # cs) = wrap_segments pre post ((True, ?t) # segs)"
      using ne True out by (simp add: wrap_segments_def)
    ultimately show ?thesis by blast
  next
    case False
    from "2.IH"(3) ne False obtain segs where segs: "exact_segments cz lit segs cs"
      and out: "replace_ci cz lit pre post cs = wrap_segments pre post segs"
      by blast
    have "\<not> occurs_at cz lit (c # cs) 0"
      using False by (simp add: occurs_at_0)
    with segs have "exact_segments cz lit ((False, [c]) # segs) (c # cs)"
      by simp
    moreover have "replace_ci cz lit pre post (c # cs) = wrap_segments pre post ((False, [c]) # segs)"
      using ne False out by (simp add: wrap_segments_def)
    ultimately show ?thesis by blast
  qed
qed

text \<open>Every such segmentation renders to what the scan returns.\<close>

lemma replace_ci_copy_run:
  assumes "lit \<noteq> []" and "\<forall>j < length t. \<not> occurs_at cz lit (t @ r) j"
  shows "replace_ci cz lit pre post (t @ r) = t @ replace_ci cz lit pre post r"
  using assms(2)
proof (induction t)
  case Nil
  show ?case by simp
next
  case (Cons c t)
  from Cons.prems have "\<not> occurs_at cz lit (c # t @ r) 0"
    by auto
  then have nm: "\<not> ci_match cz lit (c # t @ r)"
    by (simp add: occurs_at_0)
  have "\<forall>j < length t. \<not> occurs_at cz lit (t @ r) j"
  proof (intro allI impI)
    fix j assume "j < length t"
    then have "\<not> occurs_at cz lit ((c # t) @ r) (Suc j)"
      using Cons.prems by auto
    then show "\<not> occurs_at cz lit (t @ r) j"
      by (simp add: occurs_at_Suc)
  qed
  with Cons.IH have "replace_ci cz lit pre post (t @ r) = t @ replace_ci cz lit pre post r"
    by blast
  with nm assms(1) show ?case
    by simp
qed

lemma exact_segments_render:
  "lit \<noteq> [] \<Longrightarrow> exact_segments cz lit segs s \<Longrightarrow>
   wrap_segments pre post segs = replace_ci cz lit pre post s"
proof (induction segs arbitrary: s)
  case Nil
  then show ?case by (simp add: wrap_segments_def)
next
  case (Cons seg segs)
  obtain m t where seg: "seg = (m, t)" by (cases seg)
  from Cons.prems(2) seg have pre_t: "take (length t) s = t"
    and rest: "exact_segments cz lit segs (drop (length t) s)"
    and mark: "if m then ci_eq cz t lit else (\<forall>j < length t. \<not> occurs_at cz lit s j)"
    by simp_all
  from Cons.IH [OF Cons.prems(1) rest]
  have ih: "wrap_segments pre post segs = replace_ci cz lit pre post (drop (length t) s)" .
  have split: "s = t @ drop (length t) s"
    using pre_t by (metis append_take_drop_id)
  show ?case
  proof (cases m)
    case True
    with mark have eq: "ci_eq cz t lit" by simp
    then have len: "length t = length lit"
      by (rule ci_eq_length)
    with pre_t eq have match: "ci_match cz lit s"
      by (simp add: ci_match_def ci_eq_def)
    from len Cons.prems(1) split obtain c cs where s: "s = c # cs"
      by (cases s) auto
    have "replace_ci cz lit pre post s
        = pre @ take (length lit) s @ post @ replace_ci cz lit pre post (drop (length lit) s)"
      using match Cons.prems(1) unfolding s by simp
    with len pre_t ih seg True show ?thesis
      by (simp add: wrap_segments_def)
  next
    case False
    with mark have "\<forall>j < length t. \<not> occurs_at cz lit (t @ drop (length t) s) j"
      using split by simp
    from replace_ci_copy_run [OF Cons.prems(1) this]
    have "replace_ci cz lit pre post (t @ drop (length t) s)
        = t @ replace_ci cz lit pre post (drop (length t) s)" .
    with split have "replace_ci cz lit pre post s = t @ replace_ci cz lit pre post (drop (length t) s)"
      by simp
    with ih seg False show ?thesis
      by (simp add: wrap_segments_def)
  qed
qed

lemma wraps_exactly_iff:
  "lit \<noteq> [] \<Longrightarrow> wraps_exactly cz lit pre post s out = (out = replace_ci cz lit pre post s)"
  unfolding wraps_exactly_def
  using replace_ci_segments [of lit cz s pre post] exact_segments_render [of lit cz _ s pre post]
  by metis


lemma special_escape: "regex_special c \<Longrightarrow> identity_escape c"
  by (auto simp: regex_special_def identity_escape_def syntax_char_def)

lemma not_special: "\<not> regex_special c \<Longrightarrow> c \<noteq> CHR 0x5C \<and> \<not> syntax_char c"
  by (auto simp: regex_special_def syntax_char_def)

lemma parse_literal_escape: "parse_literal (escapeRegExp v) = Some v"
proof (induction v)
  case Nil
  show ?case by (simp add: escapeRegExp_def)
next
  case (Cons c v)
  have unfold: "escapeRegExp (c # v) =
      (if regex_special c then [CHR 0x5C, c] else [c]) @ escapeRegExp v"
    by (simp add: escapeRegExp_def)
  show ?case
  proof (cases "regex_special c")
    case True
    then show ?thesis
      using Cons.IH special_escape [OF True] by (simp add: unfold)
  next
    case False
    then show ?thesis
      using Cons.IH not_special [OF False] by (simp add: unfold)
  qed
qed

lemma RegExp_group_escape: "RegExp_group (''('' @ escapeRegExp v @ '')'') = Some v"
  by (simp add: RegExp_group_def parse_literal_escape)

lemma highlight_value_Inr:
  "highlight_value cz label v html =
     Inr (replace_ci cz v (span_open (entity_color label)) span_close html)"
  unfolding highlight_value_def Let_def by (simp only: RegExp_group_escape option.case)

lemma highlight_values_total: "\<exists>out. highlight_values cz label vs html = Inr out"
  by (induction vs arbitrary: html) (simp_all add: highlight_value_Inr)

lemma highlight_entities_total: "\<exists>out. highlight_entities cz es html = Inr out"
proof (induction es arbitrary: html)
  case Nil
  show ?case by simp
next
  case (Cons e es)
  obtain label vals where e: "e = (label, vals)" by (cases e)
  obtain html' where "highlight_values cz label vals html = Inr html'"
    using highlight_values_total by blast
  with Cons.IH [of html'] e show ?case by simp
qed






text \<open>
  C7, as amended.  When the record has an entities mapping, empty or not, the highlighter
  ends with the fixed pass over the text that entity substitution produced: its result is
  the one string that wraps exactly the occurrences of "family", letter case ignored, in
  that text with the alert span; with an empty mapping that text is the raw text.  An
  occurrence in the raw text that an entity span has split is not an occurrence of the
  substituted text.  When the record has no entities mapping, or no record is present,
  the raw text is returned as it is.
\<close>

theorem highlightText_family_pass:
  "(entities r = None \<longrightarrow> highlightText cz (Some r) raw = Inr raw)
   \<and> (\<forall>es. entities r = Some es \<longrightarrow>
        (\<exists>html. highlight_entities cz es raw = Inr html
           \<and> (es = [] \<longrightarrow> html = raw)
           \<and> highlightText cz (Some r) raw
               = Inr (replace_ci cz ''family'' family_open span_close html)
           \<and> (\<forall>out. (highlightText cz (Some r) raw = Inr out)
                 = wraps_exactly cz ''family'' family_open span_close html out)))
   \<and> highlightText cz None raw = Inr raw
   \<and> replace_ci ascii_canonicalize ''family'' family_open span_close ''My Family and FAMILY''
       = ''My <span style=\"background:#f8717140;color:#f87171;border:1''
          @ ''px solid #f8717160;border-radius:4px;padding:0 3px;font-weig''
          @ ''ht:600;\">Family</span> and <span style=\"background:#f87171''
          @ ''40;color:#f87171;border:1px solid #f8717160;border-radius:4p''
          @ ''x;padding:0 3px;font-weight:600;\">FAMILY</span>''"
proof -
  have absent: "entities r = None \<longrightarrow> highlightText cz (Some r) raw = Inr raw"
    by (simp add: highlightText_def)
  have present: "\<forall>es. entities r = Some es \<longrightarrow>
        (\<exists>html. highlight_entities cz es raw = Inr html
           \<and> (es = [] \<longrightarrow> html = raw)
           \<and> highlightText cz (Some r) raw
               = Inr (replace_ci cz ''family'' family_open span_close html)
           \<and> (\<forall>out. (highlightText cz (Some r) raw = Inr out)
                 = wraps_exactly cz ''family'' family_open span_close html out))"
  proof (intro allI impI)
    fix es assume es: "entities r = Some es"
    obtain html where html: "highlight_entities cz es raw = Inr html"
      using highlight_entities_total by blast
    have same: "es = [] \<longrightarrow> html = raw"
      using html by auto
    have res: "highlightText cz (Some r) raw
        = Inr (replace_ci cz ''family'' family_open span_close html)"
      using es html by (simp add: highlightText_def)
    have "''family'' \<noteq> []"
      by simp
    then have "\<forall>out. (highlightText cz (Some r) raw = Inr out)
        = wraps_exactly cz ''family'' family_open span_close html out"
      unfolding res by (auto simp: wraps_exactly_iff)
    with html same res
    show "\<exists>html. highlight_entities cz es raw = Inr html
           \<and> (es = [] \<longrightarrow> html = raw)
           \<and> highlightText cz (Some r) raw
               = Inr (replace_ci cz ''family'' family_open span_close html)
           \<and> (\<forall>out. (highlightText cz (Some r) raw = Inr out)
                 = wraps_exactly cz ''family'' family_open span_close html out)"
      by blast
  qed
  have none: "highlightText cz None raw = Inr raw"
    by (simp add: highlightText_def)
  have example:
    "replace_ci ascii_canonicalize ''family'' family_open span_close ''My Family and FAMILY''
       = ''My <span style=\"background:#f8717140;color:#f87171;border:1''
          @ ''px solid #f8717160;border-radius:4px;padding:0 3px;font-weig''
          @ ''ht:600;\">Family</span> and <span style=\"background:#f87171''
          @ ''40;color:#f87171;border:1px solid #f8717160;border-radius:4p''
          @ ''x;padding:0 3px;font-weight:600;\">FAMILY</span>''"
    by code_simp
  from absent present none example show ?thesis
    by (intro conjI)
qed

theorem highlightText_family_pass_witness:
  "entities 
      \<lparr>report_id = ''r1'', original_text = ''My Family'',
        entities = Some [], overall_risk_score = 70, risk_percentile = 80,
        confidence_score = fl 0.9, feature_contributions = Map.empty,
        sentiment_score = fl 0.3\<rparr> = Some []
   \<and> highlightText ascii_canonicalize (Some 
      \<lparr>report_id = ''r1'', original_text = ''My Family'',
        entities = Some [], overall_risk_score = 70, risk_percentile = 80,
        confidence_score = fl 0.9, feature_contributions = Map.empty,
        sentiment_score = fl 0.3\<rparr>) ''My Family''
       = Inr (''My <span style=\"background:#f8717140;color:#f87171;border:1''
              @ ''px solid #f8717160;border-radius:4px;padding:0 3px;font-weig''
              @ ''ht:600;\">Family</span>'')"
proof -
  let ?r = "
      \<lparr>report_id = ''r1'', original_text = ''My Family'',
        entities = Some [], overall_risk_score = 70, risk_percentile = 80,
        confidence_score = fl 0.9, feature_contributions = Map.empty,
        sentiment_score = fl 0.3\<rparr>"
  have pass: "replace_ci ascii_canonicalize ''family'' family_open span_close ''My Family''
      = ''My <span style=\"background:#f8717140;color:#f87171;border:1''
              @ ''px solid #f8717160;border-radius:4px;padding:0 3px;font-weig''
              @ ''ht:600;\">Family</span>''"
    by code_simp
  have ents: "entities ?r = Some []"
    by simp
  from highlightText_family_pass [of ?r ascii_canonicalize "''My Family''"] ents
  obtain html where same: "[] = ([] :: (string \<times> string list) list) \<longrightarrow> html = ''My Family''"
    and res: "highlightText ascii_canonicalize (Some ?r) ''My Family''
        = Inr (replace_ci ascii_canonicalize ''family'' family_open span_close html)"
    by blast
  from same have "html = ''My Family''"
    by simp
  with res pass ents show ?thesis
    by (simp only:)
qed

text \<open>
  C7, as stated, fails in two ways.  A record without an entities mapping: the text
  "my family" is returned unchanged, with no alert span.  A record whose entities hold the
  value "Fam": the entity span splits the word, the fixed pass finds no "family" in the
  substituted text, and the result has no alert span although the input text has the
  word.
\<close>

theorem highlightText_family_counterexample:
  "highlightText ascii_canonicalize (Some 
      \<lparr>report_id = ''r1'', original_text = ''my family'',
        entities = None, overall_risk_score = 70, risk_percentile = 80,
        confidence_score = fl 0.9, feature_contributions = Map.empty,
        sentiment_score = fl 0.3\<rparr>) ''my family'' = Inr ''my family''
   \<and> highlightText ascii_canonicalize (Some 
      \<lparr>report_id = ''r1'', original_text = ''my family'',
        entities = Some [(''PERSON'', [''Fam''])], overall_risk_score = 70, risk_percentile = 80,
        confidence_score = fl 0.9, feature_contributions = Map.empty,
        sentiment_score = fl 0.3\<rparr>) ''my family''
       = Inr (''my <span style=\"background:#60a5fa30;color:#60a5fa;border:1''
              @ ''px solid #60a5fa60;border-radius:4px;padding:0 3px;font-weig''
              @ ''ht:600;\">fam</span>ily'')"
  by code_simp


section \<open>Count-up animation: a re-trigger does not cancel\<close>

lemma cu_effect_appends:
  "pending (useCountUp_effect target duration True st) =
     pending st @ [\<lparr>cu_target = target, cu_duration = duration, cu_start = None\<rparr>]"
  by (simp add: useCountUp_effect_def)

text \<open>
  C8 does not hold of the code.  The hook is mounted with target 50 and duration 1000, a
  frame runs at time stamp 16, and the target changes to 100 before the animation has
  settled.  The effect has no cleanup, so the callback of the first run stays queued next
  to the new one: two schedules are active, and both are still active after the next
  frame.
\<close>

theorem countUp_retrigger_keeps_old_schedule:
  "map cu_target
     (pending (useCountUp_effect 100 1000 True (animation_frame 16 (useCountUp_effect 50 1000 True cu_init))))
     = [50, 100]
   \<and> map cu_target
     (pending (animation_frame 32
        (useCountUp_effect 100 1000 True (animation_frame 16 (useCountUp_effect 50 1000 True cu_init)))))
     = [50, 100]"
  by (simp add: animation_frame_def useCountUp_effect_def cu_init_def useCountUp_step_def Let_def)


section \<open>Typewriter animation: reveal and restart\<close>

lemma tw_inv_cleanup: "tw_inv st \<Longrightarrow> timers (useTypewriter_cleanup st) = [] \<and> cleanup (useTypewriter_cleanup st) = None"
  by (cases "cleanup st") (auto simp: tw_inv_def useTypewriter_cleanup_def clearInterval_def filter_empty_conv)

lemma tw_inv_init: "tw_inv tw_init"
  by (simp add: tw_inv_def tw_init_def)

lemma tw_inv_effect: "tw_inv st \<Longrightarrow> tw_inv (useTypewriter_effect text trigger st)"
  using tw_inv_cleanup [of st] by (auto simp: useTypewriter_effect_def Let_def tw_inv_def)

lemma tw_inv_tick: "tw_inv st \<Longrightarrow> tw_inv (useTypewriter_tick n st)"
  by (auto simp: useTypewriter_tick_def tw_inv_def Let_def clearInterval_def split: option.splits if_splits)

lemma tw_inv_unmount: "tw_inv st \<Longrightarrow> tw_inv (useTypewriter_cleanup st)"
  using tw_inv_cleanup [of st] by (simp add: tw_inv_def)

lemma tw_inv_do: "tw_inv st \<Longrightarrow> tw_inv (tw_do e st)"
  by (cases e) (simp_all add: tw_inv_effect tw_inv_tick tw_inv_unmount)

lemma tw_inv_fold: "tw_inv st \<Longrightarrow> tw_inv (fold tw_do es st)"
  by (induction es arbitrary: st) (simp_all add: tw_inv_do)

lemma tw_inv_run: "tw_inv (tw_run es tw_init)"
  unfolding tw_run_def by (rule tw_inv_fold) (rule tw_inv_init)

lemma tw_effect_start:
  assumes "tw_inv st" and "t \<noteq> []"
  shows "displayed (useTypewriter_effect t True st) = []"
    and "timers (useTypewriter_effect t True st) = [\<lparr>tw_id = next_id st, tw_text = t, tw_i = 0\<rparr>]"
proof -
  have nid: "next_id (useTypewriter_cleanup st) = next_id st"
    by (simp add: useTypewriter_cleanup_def split: option.split)
  show "displayed (useTypewriter_effect t True st) = []"
    using assms by (simp add: useTypewriter_effect_def Let_def)
  show "timers (useTypewriter_effect t True st) = [\<lparr>tw_id = next_id st, tw_text = t, tw_i = 0\<rparr>]"
    using assms tw_inv_cleanup [of st] by (simp add: useTypewriter_effect_def Let_def nid)
qed

lemma tw_tick_single:
  assumes "timers st = [\<lparr>tw_id = n, tw_text = t, tw_i = j\<rparr>]"
  shows "displayed (useTypewriter_tick n st) = take (Suc j) t"
    and "timers (useTypewriter_tick n st) =
           (if length t \<le> Suc j then [] else [\<lparr>tw_id = n, tw_text = t, tw_i = Suc j\<rparr>])"
  using assms by (simp_all add: useTypewriter_tick_def Let_def clearInterval_def)

lemma tw_tick_idle: "timers st = [] \<Longrightarrow> useTypewriter_tick m st = st"
  by (simp add: useTypewriter_tick_def)

lemma tw_tick_other:
  "timers st = [\<lparr>tw_id = n, tw_text = t, tw_i = j\<rparr>] \<Longrightarrow> m \<noteq> n \<Longrightarrow> useTypewriter_tick m st = st"
  by (simp add: useTypewriter_tick_def)

lemma tw_ticks_reveal:
  assumes "timers st = [\<lparr>tw_id = n, tw_text = t, tw_i = 0\<rparr>]" and "displayed st = []"
    and "t \<noteq> []" and "k \<le> length t"
  shows "displayed ((useTypewriter_tick n ^^ k) st) = take k t
     \<and> timers ((useTypewriter_tick n ^^ k) st) =
         (if length t \<le> k then [] else [\<lparr>tw_id = n, tw_text = t, tw_i = k\<rparr>])"
  using assms(4)
proof (induction k)
  case 0
  with assms(1-3) show ?case by simp
next
  case (Suc k)
  then have "timers ((useTypewriter_tick n ^^ k) st) = [\<lparr>tw_id = n, tw_text = t, tw_i = k\<rparr>]"
    by simp
  from tw_tick_single [OF this] show ?case by simp
qed

lemma tw_ticks_done:
  assumes "timers st = [\<lparr>tw_id = n, tw_text = t, tw_i = 0\<rparr>]" and "displayed st = []"
    and "t \<noteq> []" and "length t \<le> k"
  shows "displayed ((useTypewriter_tick n ^^ k) st) = t \<and> timers ((useTypewriter_tick n ^^ k) st) = []"
proof -
  have at_end: "displayed ((useTypewriter_tick n ^^ length t) st) = t
      \<and> timers ((useTypewriter_tick n ^^ length t) st) = []"
    using tw_ticks_reveal [OF assms(1-3), of "length t"] by simp
  have "(useTypewriter_tick n ^^ (length t + d)) st = (useTypewriter_tick n ^^ length t) st" for d
    by (induction d) (simp_all add: at_end tw_tick_idle)
  from this [of "k - length t"] at_end assms(4) show ?thesis by simp
qed

lemma tw_revealing_tick: "tw_revealing n t st \<Longrightarrow> tw_revealing n t (useTypewriter_tick m st)"
proof -
  assume "tw_revealing n t st"
  then obtain j where j: "j \<le> length t" "displayed st = take j t"
    and tm: "timers st = [] \<or> (j < length t \<and> timers st = [\<lparr>tw_id = n, tw_text = t, tw_i = j\<rparr>])"
    unfolding tw_revealing_def by blast
  from tm show ?thesis
  proof
    assume "timers st = []"
    then have "useTypewriter_tick m st = st" by (rule tw_tick_idle)
    with \<open>tw_revealing n t st\<close> show ?thesis by simp
  next
    assume run: "j < length t \<and> timers st = [\<lparr>tw_id = n, tw_text = t, tw_i = j\<rparr>]"
    show ?thesis
    proof (cases "m = n")
      case False
      with run have "useTypewriter_tick m st = st" by (simp add: tw_tick_other)
      with \<open>tw_revealing n t st\<close> show ?thesis by simp
    next
      case True
      from run tw_tick_single [of st n t j] have
        "displayed (useTypewriter_tick n st) = take (Suc j) t"
        "timers (useTypewriter_tick n st) =
           (if length t \<le> Suc j then [] else [\<lparr>tw_id = n, tw_text = t, tw_i = Suc j\<rparr>])"
        by simp_all
      with run True show ?thesis
        unfolding tw_revealing_def by (intro exI [of _ "Suc j"]) auto
    qed
  qed
qed

lemma tw_revealing_ticks: "tw_revealing n t st \<Longrightarrow> tw_revealing n t (tw_run (map Tick ids) st)"
  unfolding tw_run_def by (induction ids arbitrary: st) (simp_all add: tw_revealing_tick)


text \<open>
  C9.  Let the effect run with a non-empty text \<open>t\<close> in any state the hook can be in
  (after any history \<open>es\<close> of effect runs, ticks and unmounts, so also in the middle of
  revealing another text).  Then the displayed string is reset to empty and the only
  interval that is set is the new one, with \<open>i = 0\<close>: the earlier interval has been
  cleared.  After \<open>k\<close> ticks, \<open>k\<close> up to the length of \<open>t\<close>, the displayed string is
  the first \<open>k\<close> characters of \<open>t\<close>; after at least \<open>length t\<close> ticks it is \<open>t\<close> and no
  interval is left.  Whatever interval ids tick afterwards, the displayed string is a prefix
  of \<open>t\<close>: nothing of an older text shows up again.
\<close>

theorem typewriter_reveals_and_restarts:
  assumes "t \<noteq> []"
  shows "displayed (useTypewriter_effect t True (tw_run es tw_init)) = []
    \<and> timers (useTypewriter_effect t True (tw_run es tw_init)) =
        [\<lparr>tw_id = next_id (tw_run es tw_init), tw_text = t, tw_i = 0\<rparr>]
    \<and> (\<forall>k \<le> length t.
         displayed ((useTypewriter_tick (next_id (tw_run es tw_init)) ^^ k)
                      (useTypewriter_effect t True (tw_run es tw_init))) = take k t)
    \<and> (\<forall>k \<ge> length t.
         displayed ((useTypewriter_tick (next_id (tw_run es tw_init)) ^^ k)
                      (useTypewriter_effect t True (tw_run es tw_init))) = t
         \<and> timers ((useTypewriter_tick (next_id (tw_run es tw_init)) ^^ k)
                      (useTypewriter_effect t True (tw_run es tw_init))) = [])
    \<and> (\<forall>ids. \<exists>j \<le> length t.
         displayed (tw_run (map Tick ids) (useTypewriter_effect t True (tw_run es tw_init))) = take j t)"
proof -
  let ?old = "tw_run es tw_init"
  let ?st = "useTypewriter_effect t True ?old"
  let ?n = "next_id ?old"
  have d: "displayed ?st = []" and tm: "timers ?st = [\<lparr>tw_id = ?n, tw_text = t, tw_i = 0\<rparr>]"
    using tw_effect_start [OF tw_inv_run assms] by simp_all
  have reveal: "\<forall>k \<le> length t. displayed ((useTypewriter_tick ?n ^^ k) ?st) = take k t"
    using tw_ticks_reveal [OF tm d assms] by blast
  have fin: "\<forall>k \<ge> length t. displayed ((useTypewriter_tick ?n ^^ k) ?st) = t
      \<and> timers ((useTypewriter_tick ?n ^^ k) ?st) = []"
    using tw_ticks_done [OF tm d assms] by blast
  have "tw_revealing ?n t ?st"
    unfolding tw_revealing_def using d tm assms by (intro exI [of _ 0]) simp
  then have "\<forall>ids. tw_revealing ?n t (tw_run (map Tick ids) ?st)"
    by (simp add: tw_revealing_ticks)
  then have prefix: "\<forall>ids. \<exists>j \<le> length t. displayed (tw_run (map Tick ids) ?st) = take j t"
    unfolding tw_revealing_def by blast
  from d tm reveal fin prefix show ?thesis by blast
qed


theorem typewriter_reveals_and_restarts_witness:
  "''abc'' \<noteq> []
   \<and> displayed (useTypewriter_effect ''abc'' True
        (tw_run [Effect ''hello'' True, Tick 0, Tick 0] tw_init)) = []
   \<and> displayed ((useTypewriter_tick 1 ^^ 3) (useTypewriter_effect ''abc'' True
        (tw_run [Effect ''hello'' True, Tick 0, Tick 0] tw_init))) = ''abc''
   \<and> timers ((useTypewriter_tick 1 ^^ 3) (useTypewriter_effect ''abc'' True
        (tw_run [Effect ''hello'' True, Tick 0, Tick 0] tw_init))) = []"
proof -
  let ?es = "[Effect ''hello'' True, Tick 0, Tick 0]"
  have ne: "''abc'' \<noteq> []"
    by simp
  have n: "next_id (tw_run ?es tw_init) = 1"
    by code_simp
  have len: "length ''abc'' \<le> 3"
    by simp
  from typewriter_reveals_and_restarts [OF ne, of ?es]
  have start: "displayed (useTypewriter_effect ''abc'' True (tw_run ?es tw_init)) = []"
    and fin: "\<forall>k \<ge> length ''abc''.
         displayed ((useTypewriter_tick (next_id (tw_run ?es tw_init)) ^^ k)
                      (useTypewriter_effect ''abc'' True (tw_run ?es tw_init))) = ''abc''
         \<and> timers ((useTypewriter_tick (next_id (tw_run ?es tw_init)) ^^ k)
                      (useTypewriter_effect ''abc'' True (tw_run ?es tw_init))) = []"
    by blast+
  from fin len have
    "displayed ((useTypewriter_tick (next_id (tw_run ?es tw_init)) ^^ 3)
                      (useTypewriter_effect ''abc'' True (tw_run ?es tw_init))) = ''abc''
     \<and> timers ((useTypewriter_tick (next_id (tw_run ?es tw_init)) ^^ 3)
                      (useTypewriter_effect ''abc'' True (tw_run ?es tw_init))) = []"
    by blast
  with start ne show ?thesis
    unfolding n by blast
qed

end
